theory Spec2Isabelle
  imports Main "HOL-Library.Word" "HOL-Library.Multiset"
begin

unbundle bit_operations_syntax

section \<open>JavaScript strings\<close>

text \<open>
  A JavaScript string is a sequence of UTF-16 code units. Literals of the source are
  written \<open>js ''...''\<close>; code units outside ASCII are written as numerals.
\<close>

type_synonym code_unit = "16 word"
type_synonym jstring = "code_unit list"

definition js :: "string \<Rightarrow> jstring" where
  "js s = map (\<lambda>c. of_nat (of_char c)) s"

text \<open>
  \<open>String.prototype.trim\<close> removes WhiteSpace and LineTerminator code points from both
  ends (ECMA-262, TrimString).
\<close>

definition is_js_space :: "code_unit \<Rightarrow> bool" where
  "is_js_space c \<longleftrightarrow>
     c \<in> set [0x9, 0xA, 0xB, 0xC, 0xD, 0x20, 0xA0, 0x1680, 0x2028, 0x2029,
              0x202F, 0x205F, 0x3000, 0xFEFF]
     \<or> (0x2000 \<le> c \<and> c \<le> 0x200A)"

definition trim :: "jstring \<Rightarrow> jstring" where
  "trim s = rev (dropWhile is_js_space (rev (dropWhile is_js_space s)))"

text \<open>\<open>s.split(sep)\<close> for a one-unit separator: always at least one fragment.\<close>

fun split :: "code_unit \<Rightarrow> jstring \<Rightarrow> jstring list" where
  "split sep [] = [[]]"
| "split sep (c # cs) =
     (if c = sep then [] # split sep cs
      else (case split sep cs of
              [] \<Rightarrow> [[c]]
            | l # ls \<Rightarrow> (c # l) # ls))"

text \<open>\<open>parts.join(sep)\<close>.\<close>

fun join :: "jstring \<Rightarrow> jstring list \<Rightarrow> jstring" where
  "join sep [] = []"
| "join sep [x] = x"
| "join sep (x # y # ys) = x @ sep @ join sep (y # ys)"

section \<open>Parsed JSON values and the host environment\<close>

text \<open>
  The values \<open>JSON.parse\<close> produces. Numbers are IEEE doubles of the host; the code never
  computes with them, so their type is a parameter \<open>'n\<close>. An object is held as the list
  \<open>Object.entries\<close> enumerates.
\<close>

datatype 'n json =
    JNull
  | JBool bool
  | JNumber 'n
  | JString jstring
  | JArray "'n json list"
  | JObject "(jstring \<times> 'n json) list"

text \<open>A \<open>Change\<close> of the \<open>diff\<close> package: \<open>{ value, added?, removed? }\<close>.\<close>

record change =
  added :: bool
  removed :: bool
  "value" :: jstring

text \<open>
  What the program takes from the JavaScript engine and from the \<open>diff\<close> package, none of
  it code of this repository:
  \<^item> \<open>JSON_parse\<close>: \<open>JSON.parse\<close>; \<open>Inl m\<close> is a thrown \<open>SyntaxError\<close> with message \<open>m\<close>;
  \<^item> \<open>Number_toString\<close>, \<open>Number_isFinite\<close>: rendering and finiteness of a double;
  \<^item> \<open>localeCompare\<close>: \<open>String.prototype.localeCompare\<close>, negative, zero or positive;
  \<^item> \<open>diffJson\<close>: \<open>diffJson\<close> of the \<open>diff\<close> package on two strings.
\<close>

record 'n host =
  JSON_parse :: "jstring \<Rightarrow> jstring + 'n json"
  Number_toString :: "'n \<Rightarrow> jstring"
  Number_isFinite :: "'n \<Rightarrow> bool"
  localeCompare :: "jstring \<Rightarrow> jstring \<Rightarrow> int"
  diffJson :: "jstring \<Rightarrow> jstring \<Rightarrow> change list"

section \<open>\<open>JSON.stringify\<close>\<close>

definition hex_digit :: "code_unit \<Rightarrow> code_unit" where
  "hex_digit d = (if d < 10 then 0x30 + d else 0x61 + (d - 10))"

text \<open>\<open>UnicodeEscape\<close>: backslash, \<open>u\<close> and four lowercase hexadecimal digits.\<close>

definition unicode_escape :: "code_unit \<Rightarrow> jstring" where
  "unicode_escape c =
     [0x5C, 0x75, hex_digit (drop_bit 12 c AND 0xF), hex_digit (drop_bit 8 c AND 0xF),
      hex_digit (drop_bit 4 c AND 0xF), hex_digit (c AND 0xF)]"

definition is_lead :: "code_unit \<Rightarrow> bool" where
  "is_lead c \<longleftrightarrow> 0xD800 \<le> c \<and> c \<le> 0xDBFF"

definition is_trail :: "code_unit \<Rightarrow> bool" where
  "is_trail c \<longleftrightarrow> 0xDC00 \<le> c \<and> c \<le> 0xDFFF"

definition escape_unit :: "code_unit \<Rightarrow> jstring" where
  "escape_unit c =
     (if c = 0x08 then [0x5C, 0x62]
      else if c = 0x09 then [0x5C, 0x74]
      else if c = 0x0A then [0x5C, 0x6E]
      else if c = 0x0C then [0x5C, 0x66]
      else if c = 0x0D then [0x5C, 0x72]
      else if c = 0x22 then [0x5C, 0x22]
      else if c = 0x5C then [0x5C, 0x5C]
      else if c < 0x20 \<or> is_trail c then unicode_escape c
      else [c])"

text \<open>
  \<open>QuoteJSONString\<close>: a surrogate pair passes through, a lone surrogate is escaped.
\<close>

fun quote_units :: "jstring \<Rightarrow> jstring" where
  "quote_units [] = []"
| "quote_units (c # cs) =
     (if is_lead c then
        (case cs of
           [] \<Rightarrow> unicode_escape c
         | d # ds \<Rightarrow>
             if is_trail d then c # d # quote_units ds
             else unicode_escape c @ quote_units cs)
      else escape_unit c @ quote_units cs)"

definition QuoteJSONString :: "jstring \<Rightarrow> jstring" where
  "QuoteJSONString s = [0x22] @ quote_units s @ [0x22]"

text \<open>
  \<open>SerializeJSONProperty\<close> with the gap \<open>gap\<close> at the indentation \<open>ind\<close>. The values are
  parsed JSON, so no \<open>toJSON\<close>, no replacer and no skipped member occur.
\<close>

fun serialize :: "'n host \<Rightarrow> jstring \<Rightarrow> jstring \<Rightarrow> 'n json \<Rightarrow> jstring" where
  "serialize h gap ind JNull = js ''null''"
| "serialize h gap ind (JBool b) = (if b then js ''true'' else js ''false'')"
| "serialize h gap ind (JNumber n) =
     (if Number_isFinite h n then Number_toString h n else js ''null'')"
| "serialize h gap ind (JString s) = QuoteJSONString s"
| "serialize h gap ind (JArray xs) =
     (let stepback = ind; indent = ind @ gap;
          partial = map (serialize h gap indent) xs
      in if partial = [] then js ''[]''
         else if gap = [] then js ''['' @ join (js '','') partial @ js '']''
         else js ''['' @ [0x0A] @ indent @ join (js '','' @ [0x0A] @ indent) partial
              @ [0x0A] @ stepback @ js '']'')"
| "serialize h gap ind (JObject es) =
     (let stepback = ind; indent = ind @ gap;
          partial = map (\<lambda>(k, v).
                      QuoteJSONString k @ js '':'' @ (if gap = [] then [] else js '' '')
                      @ serialize h gap indent v) es
      in if partial = [] then js ''{}''
         else if gap = [] then js ''{'' @ join (js '','') partial @ js ''}''
         else js ''{'' @ [0x0A] @ indent @ join (js '','' @ [0x0A] @ indent) partial
              @ [0x0A] @ stepback @ js ''}'')"

text \<open>\<open>JSON.stringify(v)\<close> and \<open>JSON.stringify(v, null, 2)\<close>.\<close>

definition JSON_stringify :: "'n host \<Rightarrow> 'n json \<Rightarrow> jstring" where
  "JSON_stringify h v = serialize h [] [] v"

definition JSON_stringify2 :: "'n host \<Rightarrow> 'n json \<Rightarrow> jstring" where
  "JSON_stringify2 h v = serialize h (js ''  '') [] v"

section \<open>\<open>Array.prototype.sort\<close> with a comparator\<close>

text \<open>
  The sort is stable, and for a consistent comparator its result is the sorted
  permutation; stable insertion computes it.
\<close>

fun insert_by :: "('a \<Rightarrow> 'a \<Rightarrow> int) \<Rightarrow> 'a \<Rightarrow> 'a list \<Rightarrow> 'a list" where
  "insert_by cmp x [] = [x]"
| "insert_by cmp x (y # ys) =
     (if cmp x y \<le> 0 then x # y # ys else y # insert_by cmp x ys)"

definition sort_by :: "('a \<Rightarrow> 'a \<Rightarrow> int) \<Rightarrow> 'a list \<Rightarrow> 'a list" where
  "sort_by cmp xs = foldr (insert_by cmp) xs []"

text \<open>A consistent comparator (ECMA-262, 23.1.3.30.1) induces a total preorder.\<close>

definition consistent :: "('a \<Rightarrow> 'a \<Rightarrow> int) \<Rightarrow> bool" where
  "consistent cmp \<longleftrightarrow>
     (\<forall>a. cmp a a = 0) \<and>
     (\<forall>a b. (cmp a b < 0) = (0 < cmp b a)) \<and>
     (\<forall>a b c. cmp a b \<le> 0 \<and> cmp b c \<le> 0 \<longrightarrow> cmp a c \<le> 0)"

section \<open>Objects: property order\<close>

text \<open>
  An array index is the canonical decimal form of an integer below \<open>2^32 - 1\<close>. The own
  property keys of an object are enumerated array indices first, in ascending numeric
  order, then the other keys in order of creation (OrdinaryOwnPropertyKeys).
\<close>

definition is_digit :: "code_unit \<Rightarrow> bool" where
  "is_digit c \<longleftrightarrow> 0x30 \<le> c \<and> c \<le> 0x39"

definition index_value :: "jstring \<Rightarrow> nat" where
  "index_value k = foldl (\<lambda>n c. 10 * n + (unat c - 48)) 0 k"

definition is_array_index :: "jstring \<Rightarrow> bool" where
  "is_array_index k \<longleftrightarrow>
     k \<noteq> [] \<and> list_all is_digit k \<and> (length k = 1 \<or> hd k \<noteq> 0x30)
     \<and> index_value k < 2 ^ 32 - 1"

definition own_property_order :: "(jstring \<times> 'v) list \<Rightarrow> (jstring \<times> 'v) list" where
  "own_property_order es =
     sort_key (\<lambda>(k, v). index_value k) (filter (\<lambda>(k, v). is_array_index k) es)
     @ filter (\<lambda>(k, v). \<not> is_array_index k) es"

text \<open>
  \<open>CreateDataProperty\<close>: an existing key keeps its place and takes the new value, a new
  key is created last.
\<close>

definition define_property :: "(jstring \<times> 'v) list \<Rightarrow> jstring \<times> 'v \<Rightarrow> (jstring \<times> 'v) list" where
  "define_property created e =
     (if fst e \<in> set (map fst created)
      then map (\<lambda>(k, v). if k = fst e then (k, snd e) else (k, v)) created
      else created @ [e])"

definition fromEntries :: "(jstring \<times> 'v) list \<Rightarrow> (jstring \<times> 'v) list" where
  "fromEntries es = own_property_order (foldl define_property [] es)"

text \<open>
  The objects that exist: keys distinct and entries in enumeration order, at every depth.
\<close>

fun wf_json :: "'n json \<Rightarrow> bool" where
  "wf_json (JArray xs) = list_all wf_json xs"
| "wf_json (JObject es) =
     (distinct (map fst es) \<and> own_property_order es = es \<and> list_all (\<lambda>(k, v). wf_json v) es)"
| "wf_json v = True"

section \<open>The program\<close>

subsection \<open>\<open>tryParseJson\<close>\<close>

text \<open>The thrown error is caught and returned: \<open>Inl m\<close> is an \<open>Error\<close> with message \<open>m\<close>.\<close>

definition tryParseJson :: "'n host \<Rightarrow> jstring \<Rightarrow> jstring + 'n json" where
  "tryParseJson h input = (case JSON_parse h input of Inr v \<Rightarrow> Inr v | Inl e \<Rightarrow> Inl e)"

subsection \<open>\<open>normalizeForCompare\<close>\<close>

record options =
  sortKeys :: bool
  ignoreArrayOrder :: bool

fun deep :: "'n host \<Rightarrow> options \<Rightarrow> 'n json \<Rightarrow> 'n json" where
  "deep h opts (JArray v) =
     (let mapped = map (deep h opts) v
      in JArray (if ignoreArrayOrder opts
                 then sort_by (\<lambda>a b. localeCompare h (JSON_stringify h a) (JSON_stringify h b))
                        mapped
                 else mapped))"
| "deep h opts (JObject v) =
     (let entries = map (\<lambda>(k, val). (k, deep h opts val)) v;
          sortedEntries = (if sortKeys opts
                           then sort_by (\<lambda>(a, _) (b, _). localeCompare h a b) entries
                           else entries)
      in JObject (fromEntries sortedEntries))"
| "deep h opts v = v"

definition normalizeForCompare :: "'n host \<Rightarrow> 'n json \<Rightarrow> options \<Rightarrow> 'n json" where
  "normalizeForCompare h v opts = deep h opts v"

subsection \<open>The error message: \<open>String(x?.message || y?.message)\<close>\<close>

text \<open>
  A JavaScript value here is a parsed JSON value, a string, or \<open>undefined\<close> (\<open>None\<close>).
  \<open>x?.message\<close> reads the property \<open>message\<close>: the message of an \<open>Error\<close>, an own property
  of a parsed object, and \<open>undefined\<close> on \<open>null\<close>, on an array and on a primitive.
\<close>

fun message_of :: "jstring + 'n json \<Rightarrow> 'n json option" where
  "message_of (Inl m) = Some (JString m)"
| "message_of (Inr (JObject es)) = map_of es (js ''message'')"
| "message_of (Inr v) = None"

text \<open>\<open>ToBoolean\<close>; a double is zero exactly when it renders as \<open>0\<close>.\<close>

fun truthy :: "'n host \<Rightarrow> 'n json option \<Rightarrow> bool" where
  "truthy h None = False"
| "truthy h (Some JNull) = False"
| "truthy h (Some (JBool b)) = b"
| "truthy h (Some (JNumber n)) =
     (Number_toString h n \<noteq> js ''0'' \<and> Number_toString h n \<noteq> js ''NaN'')"
| "truthy h (Some (JString s)) = (s \<noteq> [])"
| "truthy h (Some v) = True"

definition js_or :: "'n host \<Rightarrow> 'n json option \<Rightarrow> 'n json option \<Rightarrow> 'n json option" where
  "js_or h x y = (if truthy h x then x else y)"

datatype js_throw = TypeError

fun collect :: "('e + 'a) list \<Rightarrow> 'e + 'a list" where
  "collect [] = Inr []"
| "collect (r # rs) =
     (case r of
        Inl e \<Rightarrow> Inl e
      | Inr x \<Rightarrow> (case collect rs of Inl e \<Rightarrow> Inl e | Inr xs \<Rightarrow> Inr (x # xs)))"

text \<open>
  \<open>ToString\<close>. An array is joined with commas, \<open>null\<close> elements as empty strings. An
  object goes through \<open>OrdinaryToPrimitive\<close>: an own property \<open>toString\<close> of a parsed
  object is never callable and hides \<open>Object.prototype.toString\<close>, \<open>valueOf\<close> gives no
  primitive, and a \<open>TypeError\<close> is thrown.
\<close>

fun ToString :: "'n host \<Rightarrow> 'n json \<Rightarrow> js_throw + jstring" where
  "ToString h JNull = Inr (js ''null'')"
| "ToString h (JBool b) = Inr (if b then js ''true'' else js ''false'')"
| "ToString h (JNumber n) = Inr (Number_toString h n)"
| "ToString h (JString s) = Inr s"
| "ToString h (JArray xs) =
     (case collect (map (\<lambda>x. case x of JNull \<Rightarrow> Inr [] | _ \<Rightarrow> ToString h x) xs) of
        Inl e \<Rightarrow> Inl e
      | Inr parts \<Rightarrow> Inr (join (js '','') parts))"
| "ToString h (JObject es) =
     (if js ''toString'' \<in> set (map fst es) then Inl TypeError
      else Inr (js ''[object Object]''))"

definition JS_String :: "'n host \<Rightarrow> 'n json option \<Rightarrow> js_throw + jstring" where
  "JS_String h x = (case x of None \<Rightarrow> Inr (js ''undefined'') | Some v \<Rightarrow> ToString h v)"

subsection \<open>\<open>useJsonDiff\<close>\<close>

text \<open>The return type \<open>Change[] | { error: string }\<close>; \<open>Inl\<close> of the result is a throw.\<close>

datatype diff_result = ParseFailure jstring | Changes "change list"

definition useJsonDiff ::
  "'n host \<Rightarrow> jstring \<Rightarrow> jstring \<Rightarrow> bool \<Rightarrow> bool \<Rightarrow> js_throw + diff_result" where
  "useJsonDiff h beforeText afterText sk iao =
     (let beforeParsed = tryParseJson h (trim beforeText);
          afterParsed = tryParseJson h (trim afterText)
      in case (beforeParsed, afterParsed) of
           (Inr b, Inr a) \<Rightarrow>
             (let beforeNorm = normalizeForCompare h b \<lparr>sortKeys = sk, ignoreArrayOrder = iao\<rparr>;
                  afterNorm = normalizeForCompare h a \<lparr>sortKeys = sk, ignoreArrayOrder = iao\<rparr>;
                  beforeStr = JSON_stringify2 h beforeNorm;
                  afterStr = JSON_stringify2 h afterNorm
              in Inr (Changes (diffJson h beforeStr afterStr)))
         | _ \<Rightarrow>
             (case JS_String h (js_or h (message_of beforeParsed) (message_of afterParsed)) of
                Inl e \<Rightarrow> Inl e
              | Inr s \<Rightarrow> Inr (ParseFailure s)))"

subsection \<open>\<open>renderedLines\<close> and \<open>diffText\<close>\<close>

text \<open>
  A \<open>span\<close> element: \<open>key\<close> is the counter in \<open>l-N\<close>, \<open>className\<close> the class after \<open>line \<close>,
  \<open>prefix\<close> and \<open>line\<close> the two children.
\<close>

record span =
  key :: nat
  className :: jstring
  prefix :: jstring
  line :: jstring

definition className_of :: "change \<Rightarrow> jstring" where
  "className_of part =
     (if added part then js ''add'' else if removed part then js ''remove''
      else js ''unchanged'')"

definition prefix_of :: "change \<Rightarrow> jstring" where
  "prefix_of part =
     (if added part then js ''+ '' else if removed part then js ''- '' else js ''  '')"

function render_lines ::
  "jstring \<Rightarrow> jstring \<Rightarrow> jstring list \<Rightarrow> nat \<Rightarrow> span list \<times> nat \<Rightarrow> span list \<times> nat" where
  "render_lines cls pre lines i (elements, lineKey) =
     (if i < length lines then
        (let l = lines ! i;
             isLastEmpty = (i = length lines - 1 \<and> l = [])
         in if isLastEmpty then render_lines cls pre lines (i + 1) (elements, lineKey)
            else render_lines cls pre lines (i + 1)
                   (elements @ [\<lparr>key = lineKey, className = cls, prefix = pre, line = l\<rparr>],
                    lineKey + 1))
      else (elements, lineKey))"
  by pat_completeness auto
termination
  by (relation "measure (\<lambda>(cls, pre, lines, i, st). length lines - i)") auto

definition render_part :: "span list \<times> nat \<Rightarrow> change \<Rightarrow> span list \<times> nat" where
  "render_part st part =
     render_lines (className_of part) (prefix_of part) (split 0x0A (value part)) 0 st"

definition renderedLines :: "diff_result \<Rightarrow> span list option" where
  "renderedLines diff =
     (case diff of
        Changes parts \<Rightarrow> Some (fst (foldl render_part ([], 0) parts))
      | ParseFailure e \<Rightarrow> None)"

function text_lines :: "jstring \<Rightarrow> jstring list \<Rightarrow> nat \<Rightarrow> jstring list \<Rightarrow> jstring list" where
  "text_lines pre arr i lines =
     (if i < length arr then
        (let l = arr ! i;
             isLastEmpty = (i = length arr - 1 \<and> l = [])
         in if isLastEmpty then text_lines pre arr (i + 1) lines
            else text_lines pre arr (i + 1) (lines @ [pre @ l]))
      else lines)"
  by pat_completeness auto
termination
  by (relation "measure (\<lambda>(pre, arr, i, lines). length arr - i)") auto

definition text_part :: "jstring list \<Rightarrow> change \<Rightarrow> jstring list" where
  "text_part lines part = text_lines (prefix_of part) (split 0x0A (value part)) 0 lines"

definition diffText :: "diff_result \<Rightarrow> jstring" where
  "diffText diff =
     (case diff of
        Changes parts \<Rightarrow> join [0x0A] (foldl text_part [] parts)
      | ParseFailure e \<Rightarrow> js ''JSON parse error: '' @ e)"

subsection \<open>\<open>onFormat\<close>\<close>

text \<open>The five state cells of \<open>App\<close>.\<close>

record app_state =
  before :: jstring
  after :: jstring
  sortKeys_st :: bool
  ignoreOrder :: bool
  copied :: bool

definition onFormat :: "'n host \<Rightarrow> app_state \<Rightarrow> app_state" where
  "onFormat h st =
     (let b = tryParseJson h (before st);
          a = tryParseJson h (after st);
          st1 = (case b of Inr v \<Rightarrow> st\<lparr>before := JSON_stringify2 h v\<rparr> | Inl e \<Rightarrow> st);
          st2 = (case a of Inr v \<Rightarrow> st1\<lparr>after := JSON_stringify2 h v\<rparr> | Inl e \<Rightarrow> st1)
      in st2)"

section \<open>The specification's wording\<close>

text \<open>
  The lines of a hunk as the specification words them: the text split on line breaks,
  a single trailing empty fragment dropped.
\<close>

definition hunk_lines :: "jstring \<Rightarrow> jstring list" where
  "hunk_lines t =
     (let fragments = split 0x0A t
      in if last fragments = [] then butlast fragments else fragments)"

text \<open>
  The reordering of a sequence as the specification words it: by the order of each
  element's canonical serialization, the text the Canonical Serializer produces.
\<close>

definition spec_reorder :: "'n host \<Rightarrow> 'n json list \<Rightarrow> 'n json list" where
  "spec_reorder h xs =
     sort_by (\<lambda>a b. localeCompare h (JSON_stringify2 h a) (JSON_stringify2 h b)) xs"

section \<open>An example host\<close>

text \<open>
  A host to evaluate the program on: integers for the numbers, a comparison of code
  units that honours the canonical equivalence of U+00E9 and U+0065 U+0301 as
  \<open>localeCompare\<close> must, \<open>JSON.parse\<close> on the texts of the examples, and a differencer that
  only tells equal texts from different ones.
\<close>

function decimal :: "nat \<Rightarrow> jstring" where
  "decimal n = (if n < 10 then [0x30 + of_nat n] else decimal (n div 10) @ [0x30 + of_nat (n mod 10)])"
  by pat_completeness auto
termination
  by (relation "measure id") auto

definition int_toString :: "int \<Rightarrow> jstring" where
  "int_toString i = (if i < 0 then js ''-'' @ decimal (nat (- i)) else decimal (nat i))"

definition decompose :: "jstring \<Rightarrow> jstring" where
  "decompose s = concat (map (\<lambda>c. if c = 0xE9 then [0x65, 0x301] else [c]) s)"

fun compare_units :: "jstring \<Rightarrow> jstring \<Rightarrow> int" where
  "compare_units [] [] = 0"
| "compare_units [] (y # ys) = - 1"
| "compare_units (x # xs) [] = 1"
| "compare_units (x # xs) (y # ys) =
     (if x < y then - 1 else if y < x then 1 else compare_units xs ys)"

definition example_compare :: "jstring \<Rightarrow> jstring \<Rightarrow> int" where
  "example_compare a b = compare_units (decompose a) (decompose b)"

definition example_parse :: "jstring \<Rightarrow> jstring + int json" where
  \<open>example_parse t =
     (if t = js ''{"a":1}'' then Inr (JObject [(js ''a'', JNumber 1)])
      else if t = js ''{"message":"boom"}'' then
        Inr (JObject [(js ''message'', JString (js ''boom''))])
      else if t = js ''{"message":{"toString":null}}'' then
        Inr (JObject [(js ''message'', JObject [(js ''toString'', JNull)])])
      else if t = [] then Inl (js ''Unexpected end of JSON input'')
      else Inl (js ''Unexpected token'' ))\<close>

definition example_diff :: "jstring \<Rightarrow> jstring \<Rightarrow> change list" where
  "example_diff b a =
     (if b = a then [\<lparr>added = False, removed = False, value = b\<rparr>]
      else [\<lparr>added = False, removed = True, value = b\<rparr>,
            \<lparr>added = True, removed = False, value = a\<rparr>])"

definition example_host :: "int host" where
  "example_host =
     \<lparr>JSON_parse = example_parse, Number_toString = int_toString,
      Number_isFinite = (\<lambda>n. True), localeCompare = example_compare,
      diffJson = example_diff\<rparr>"

section \<open>Auxiliary notions\<close>

text \<open>What both line loops keep of the fragments: all but an empty last one.\<close>

definition drop_last_empty :: "jstring list \<Rightarrow> jstring list" where
  "drop_last_empty arr = (if arr \<noteq> [] \<and> last arr = [] then butlast arr else arr)"

section \<open>The pipeline: parse failures\<close>

lemma tryParseJson_eq: "tryParseJson h t = JSON_parse h t"
  by (simp add: tryParseJson_def split: sum.splits)

text \<open>
  With both sides parsed the result is the differencer's script of the two canonical
  texts. With a side that failed it is decided by the two \<open>message\<close> properties alone:
  the message of a failing before side when it is not empty, and the message of a failing
  after side when the before side offers no truthy \<open>message\<close>.
\<close>

lemma useJsonDiff_success:
  assumes "JSON_parse h (trim beforeText) = Inr b" and "JSON_parse h (trim afterText) = Inr a"
  shows "useJsonDiff h beforeText afterText sk iao =
           Inr (Changes (diffJson h
             (JSON_stringify2 h (normalizeForCompare h b \<lparr>sortKeys = sk, ignoreArrayOrder = iao\<rparr>))
             (JSON_stringify2 h (normalizeForCompare h a \<lparr>sortKeys = sk, ignoreArrayOrder = iao\<rparr>))))"
  using assms by (simp add: useJsonDiff_def tryParseJson_eq Let_def)

lemma useJsonDiff_failure:
  assumes "isl (JSON_parse h (trim beforeText)) \<or> isl (JSON_parse h (trim afterText))"
  shows "useJsonDiff h beforeText afterText sk iao =
           (case JS_String h (js_or h (message_of (JSON_parse h (trim beforeText)))
                                      (message_of (JSON_parse h (trim afterText)))) of
              Inl e \<Rightarrow> Inl e
            | Inr s \<Rightarrow> Inr (ParseFailure s))"
  using assms
  by (cases "JSON_parse h (trim beforeText)"; cases "JSON_parse h (trim afterText)")
     (simp_all add: useJsonDiff_def tryParseJson_eq)

lemma useJsonDiff_before_fails:
  assumes "JSON_parse h (trim beforeText) = Inl mb" and "mb \<noteq> []"
  shows "useJsonDiff h beforeText afterText sk iao = Inr (ParseFailure mb)"
  using assms useJsonDiff_failure [of h beforeText afterText sk iao]
  by (simp add: js_or_def JS_String_def)

lemma useJsonDiff_after_fails:
  assumes "JSON_parse h (trim beforeText) = Inr b"
    and "\<not> truthy h (message_of (Inr b))"
    and "JSON_parse h (trim afterText) = Inl ma"
  shows "useJsonDiff h beforeText afterText sk iao = Inr (ParseFailure ma)"
  using assms useJsonDiff_failure [of h beforeText afterText sk iao]
  by (simp add: js_or_def JS_String_def)

text \<open>
  C10: when both sides fail to parse, the reported message is the before side's decoder
  message, and the after side's message only when the before side's message is empty.
\<close>

theorem useJsonDiff_both_fail:
  assumes "JSON_parse h (trim beforeText) = Inl mb"
    and "JSON_parse h (trim afterText) = Inl ma"
  shows "useJsonDiff h beforeText afterText sk iao =
           Inr (ParseFailure (if mb = [] then ma else mb))"
  using assms by (simp add: useJsonDiff_def tryParseJson_eq js_or_def JS_String_def)

lemma example_parse_empty: "JSON_parse example_host (trim []) = Inl (js ''Unexpected end of JSON input'')"
  by (simp add: example_host_def example_parse_def trim_def js_def)

lemma example_parse_not_json: "JSON_parse example_host (trim (js ''not json'')) = Inl (js ''Unexpected token'')"
  by (simp add: example_host_def example_parse_def trim_def js_def is_js_space_def)

theorem useJsonDiff_both_fail_witness:
  "JSON_parse example_host (trim []) = Inl (js ''Unexpected end of JSON input'') \<and>
   JSON_parse example_host (trim (js ''not json'')) = Inl (js ''Unexpected token'') \<and>
   useJsonDiff example_host [] (js ''not json'') True False =
     Inr (ParseFailure (js ''Unexpected end of JSON input''))"
  using useJsonDiff_both_fail [OF example_parse_empty example_parse_not_json, of True False]
    example_parse_empty example_parse_not_json
  by (simp add: js_def)

text \<open>
  C1, at an input where it fails: the before side parses to an object whose \<open>message\<close>
  property is an object with an own \<open>toString\<close> property, the after side does not parse.
  The failure branch reads \<open>message\<close> off the parsed side, \<open>String\<close> cannot convert it, and
  \<open>useJsonDiff\<close> throws a \<open>TypeError\<close> instead of returning a ParseFailure.
\<close>

theorem useJsonDiff_throws:
  assumes "JSON_parse h (trim beforeText) =
             Inr (JObject [(js ''message'', JObject [(js ''toString'', JNull)])])"
    and "JSON_parse h (trim afterText) = Inl m"
  shows "useJsonDiff h beforeText afterText sk iao = Inl TypeError"
  using assms by (simp add: useJsonDiff_def tryParseJson_eq js_or_def JS_String_def)

lemma example_parse_toString:
  \<open>JSON_parse example_host (trim (js ''{"message":{"toString":null}}'')) =
     Inr (JObject [(js ''message'', JObject [(js ''toString'', JNull)])])\<close>
  by (simp add: example_host_def example_parse_def trim_def js_def is_js_space_def)

theorem useJsonDiff_throws_witness:
  \<open>JSON_parse example_host (trim (js ''{"message":{"toString":null}}'')) =
     Inr (JObject [(js ''message'', JObject [(js ''toString'', JNull)])]) \<and>
   JSON_parse example_host (trim (js ''not json'')) = Inl (js ''Unexpected token'') \<and>
   useJsonDiff example_host (js ''{"message":{"toString":null}}'') (js ''not json'') True False
     = Inl TypeError\<close>
  using useJsonDiff_throws [OF example_parse_toString example_parse_not_json, of True False]
    example_parse_toString example_parse_not_json
  by simp

text \<open>
  C4, at an input where it fails: the before side parses to an object with a non-empty
  string property \<open>message\<close>, the after side does not parse. The reported message is that
  property of the valid side, not the decoder message of the failing side.
\<close>

theorem useJsonDiff_parsed_message:
  assumes "JSON_parse h (trim beforeText) = Inr (JObject [(js ''message'', JString s)])"
    and "s \<noteq> []"
    and "JSON_parse h (trim afterText) = Inl m"
  shows "useJsonDiff h beforeText afterText sk iao = Inr (ParseFailure s)"
  using assms by (simp add: useJsonDiff_def tryParseJson_eq js_or_def JS_String_def)

lemma example_parse_boom:
  \<open>JSON_parse example_host (trim (js ''{"message":"boom"}'')) =
     Inr (JObject [(js ''message'', JString (js ''boom''))])\<close>
  by (simp add: example_host_def example_parse_def trim_def js_def is_js_space_def)

theorem useJsonDiff_parsed_message_witness:
  \<open>JSON_parse example_host (trim (js ''{"message":"boom"}'')) =
     Inr (JObject [(js ''message'', JString (js ''boom''))]) \<and>
   js ''boom'' \<noteq> [] \<and>
   JSON_parse example_host (trim (js ''not json'')) = Inl (js ''Unexpected token'') \<and>
   useJsonDiff example_host (js ''{"message":"boom"}'') (js ''not json'') True False
     = Inr (ParseFailure (js ''boom'')) \<and>
   js ''boom'' \<noteq> js ''Unexpected token''\<close>
proof -
  have ne: "js ''boom'' \<noteq> []" by (simp add: js_def)
  show ?thesis
    using useJsonDiff_parsed_message [OF example_parse_boom ne example_parse_not_json, of True False]
      example_parse_boom example_parse_not_json
    by (simp add: js_def)
qed

section \<open>The Format action\<close>

text \<open>
  C9: \<open>onFormat\<close> replaces the raw text of each side that parses by its serialization with
  indentation 2, leaves a side that does not parse as it is, and changes nothing else.
\<close>

theorem onFormat_writes_parsed_sides:
  "before (onFormat h st) =
     (case JSON_parse h (before st) of Inl e \<Rightarrow> before st | Inr v \<Rightarrow> JSON_stringify2 h v) \<and>
   after (onFormat h st) =
     (case JSON_parse h (after st) of Inl e \<Rightarrow> after st | Inr v \<Rightarrow> JSON_stringify2 h v) \<and>
   sortKeys_st (onFormat h st) = sortKeys_st st \<and>
   ignoreOrder (onFormat h st) = ignoreOrder st \<and>
   copied (onFormat h st) = copied st"
  by (simp add: onFormat_def tryParseJson_eq Let_def split: sum.splits)

section \<open>The two formatters\<close>

lemma split_not_Nil: "split sep s \<noteq> []"
  by (induction s) (auto split: list.splits)

lemma hunk_lines_eq: "hunk_lines t = drop_last_empty (split 0x0A t)"
  by (simp add: hunk_lines_def drop_last_empty_def Let_def split_not_Nil)

lemma drop_last_empty_step:
  assumes "i < length arr" and "\<not> (i = length arr - 1 \<and> arr ! i = [])"
  shows "drop i (drop_last_empty arr) = arr ! i # drop (Suc i) (drop_last_empty arr)"
proof (cases "arr \<noteq> [] \<and> last arr = []")
  case True
  with assms have lt: "i < length (butlast arr)"
    by (cases "i = length arr - 1") (auto simp: last_conv_nth)
  have "drop i (butlast arr) = butlast arr ! i # drop (Suc i) (butlast arr)"
    using lt by (rule Cons_nth_drop_Suc [symmetric])
  also have "butlast arr ! i = arr ! i"
    using lt by (simp add: nth_butlast)
  finally show ?thesis
    using True by (simp add: drop_last_empty_def)
next
  case False
  then show ?thesis
    using assms by (auto simp add: drop_last_empty_def Cons_nth_drop_Suc)
qed

lemma drop_last_empty_stop:
  assumes "i < length arr" and "i = length arr - 1 \<and> arr ! i = []"
  shows "drop i (drop_last_empty arr) = []" and "drop (Suc i) (drop_last_empty arr) = []"
proof -
  from assms have "arr \<noteq> []" by auto
  with assms have "last arr = []" by (auto simp add: last_conv_nth)
  with \<open>arr \<noteq> []\<close> assms show "drop i (drop_last_empty arr) = []"
    and "drop (Suc i) (drop_last_empty arr) = []"
    by (simp_all add: drop_last_empty_def)
qed

declare text_lines.simps [simp del] render_lines.simps [simp del]

lemma text_lines_eq:
  "text_lines pre arr i acc = acc @ map ((@) pre) (drop i (drop_last_empty arr))"
proof (induction pre arr i acc rule: text_lines.induct)
  case (1 pre arr i lines)
  show ?case
  proof (cases "i < length arr")
    case False
    then have "length (drop_last_empty arr) \<le> i"
      by (auto simp add: drop_last_empty_def)
    then have "drop i (drop_last_empty arr) = []"
      by simp
    with False show ?thesis by (subst text_lines.simps) simp
  next
    case True
    show ?thesis
    proof (cases "i = length arr - 1 \<and> arr ! i = []")
      case last: True
      have "text_lines pre arr i lines = text_lines pre arr (i + 1) lines"
        using True last by (subst text_lines.simps) (auto simp: Let_def)
      also have "\<dots> = lines @ map ((@) pre) (drop (i + 1) (drop_last_empty arr))"
        using "1.IH"(1) [OF True refl refl] last by auto
      finally show ?thesis
        using drop_last_empty_stop [OF True last] by simp
    next
      case nl: False
      have "text_lines pre arr i lines = text_lines pre arr (i + 1) (lines @ [pre @ arr ! i])"
        using True nl by (subst text_lines.simps) (auto simp: Let_def)
      also have "\<dots> = (lines @ [pre @ arr ! i]) @ map ((@) pre) (drop (i + 1) (drop_last_empty arr))"
        using "1.IH"(2) [OF True refl refl] nl by auto
      finally show ?thesis
        using drop_last_empty_step [OF True nl] by simp
    qed
  qed
qed

lemma render_lines_eq:
  "render_lines cls pre arr i (els, k) =
     (els @ map (\<lambda>(n, l). \<lparr>key = n, className = cls, prefix = pre, line = l\<rparr>)
              (enumerate k (drop i (drop_last_empty arr))),
      k + length (drop i (drop_last_empty arr)))"
proof (induction cls pre arr i "(els, k)" arbitrary: els k rule: render_lines.induct)
  case (1 cls pre arr i els k)
  show ?case
  proof (cases "i < length arr")
    case False
    then have "length (drop_last_empty arr) \<le> i"
      by (auto simp add: drop_last_empty_def)
    then have "drop i (drop_last_empty arr) = []"
      by simp
    with False show ?thesis by (subst render_lines.simps) simp
  next
    case True
    show ?thesis
    proof (cases "i = length arr - 1 \<and> arr ! i = []")
      case last: True
      have "render_lines cls pre arr i (els, k) = render_lines cls pre arr (i + 1) (els, k)"
        using True last by (subst render_lines.simps) (auto simp: Let_def)
      also have "\<dots> = (els @ map (\<lambda>(n, l). \<lparr>key = n, className = cls, prefix = pre, line = l\<rparr>)
              (enumerate k (drop (i + 1) (drop_last_empty arr))),
           k + length (drop (i + 1) (drop_last_empty arr)))"
        using "1.hyps"(1) [OF True refl refl] last by auto
      finally show ?thesis
        using drop_last_empty_stop [OF True last] by simp
    next
      case nl: False
      have "render_lines cls pre arr i (els, k) =
              render_lines cls pre arr (i + 1)
                (els @ [\<lparr>key = k, className = cls, prefix = pre, line = arr ! i\<rparr>], k + 1)"
        using True nl by (subst render_lines.simps) (auto simp: Let_def)
      also have "\<dots> = ((els @ [\<lparr>key = k, className = cls, prefix = pre, line = arr ! i\<rparr>])
             @ map (\<lambda>(n, l). \<lparr>key = n, className = cls, prefix = pre, line = l\<rparr>)
              (enumerate (k + 1) (drop (i + 1) (drop_last_empty arr))),
           (k + 1) + length (drop (i + 1) (drop_last_empty arr)))"
        using "1.hyps"(2) [OF True refl refl] nl by auto
      finally show ?thesis
        using drop_last_empty_step [OF True nl] by simp
    qed
  qed
qed

lemma spans_fields:
  "map (\<lambda>e. (className e, prefix e, line e))
     (map (\<lambda>(n, l). \<lparr>key = n, className = cls, prefix = pre, line = l\<rparr>) (enumerate k ls))
   = map (\<lambda>l. (cls, pre, l)) ls"
  by (induction ls arbitrary: k) auto

lemma spans_keys:
  "map key (map (\<lambda>(n, l). \<lparr>key = n, className = cls, prefix = pre, line = l\<rparr>) (enumerate k ls))
   = [k..<k + length ls]"
  by (induction ls arbitrary: k) (auto simp: upt_rec)

lemma render_part_eq:
  "render_part (els, k) p =
     (els @ map (\<lambda>(n, l). \<lparr>key = n, className = className_of p, prefix = prefix_of p, line = l\<rparr>)
              (enumerate k (hunk_lines (value p))),
      k + length (hunk_lines (value p)))"
  by (simp add: render_part_def render_lines_eq hunk_lines_eq)

lemma text_part_eq:
  "text_part acc p = acc @ map ((@) (prefix_of p)) (hunk_lines (value p))"
  by (simp add: text_part_def text_lines_eq hunk_lines_eq)

lemma foldl_text_part:
  "foldl text_part acc parts =
     acc @ concat (map (\<lambda>p. map ((@) (prefix_of p)) (hunk_lines (value p))) parts)"
  by (induction parts arbitrary: acc) (simp_all add: text_part_eq)

lemma foldl_render_part:
  "\<exists>els' k'. foldl render_part (els, k) parts = (els', k')
     \<and> map (\<lambda>e. (className e, prefix e, line e)) els' =
         map (\<lambda>e. (className e, prefix e, line e)) els
         @ concat (map (\<lambda>p. map (\<lambda>l. (className_of p, prefix_of p, l)) (hunk_lines (value p))) parts)
     \<and> map key els' = map key els @ [k..<k']
     \<and> k \<le> k'"
proof (induction parts arbitrary: els k)
  case Nil
  show ?case by simp
next
  case (Cons p parts)
  let ?new = "map (\<lambda>(n, l). \<lparr>key = n, className = className_of p, prefix = prefix_of p, line = l\<rparr>)
              (enumerate k (hunk_lines (value p)))"
  let ?k1 = "k + length (hunk_lines (value p))"
  from Cons.IH [of "els @ ?new" ?k1]
  obtain els' k' where
    f: "foldl render_part (els @ ?new, ?k1) parts = (els', k')"
    and t: "map (\<lambda>e. (className e, prefix e, line e)) els' =
         map (\<lambda>e. (className e, prefix e, line e)) (els @ ?new)
         @ concat (map (\<lambda>p. map (\<lambda>l. (className_of p, prefix_of p, l)) (hunk_lines (value p))) parts)"
    and k: "map key els' = map key (els @ ?new) @ [?k1..<k']"
    and le: "?k1 \<le> k'"
    by blast
  have "foldl render_part (els, k) (p # parts) = (els', k')"
    using f by (simp add: render_part_eq)
  moreover have "map (\<lambda>e. (className e, prefix e, line e)) els' =
         map (\<lambda>e. (className e, prefix e, line e)) els
         @ concat (map (\<lambda>p. map (\<lambda>l. (className_of p, prefix_of p, l)) (hunk_lines (value p))) (p # parts))"
    using t by (simp add: spans_fields del: map_map)
  moreover have "map key els' = map key els @ [k..<k']"
  proof -
    have "[k..<k'] = [k..<?k1] @ [?k1..<k']"
      using le upt_add_eq_append [of k ?k1 "k' - ?k1"] by simp
    then show ?thesis using k by (simp add: spans_keys del: map_map)
  qed
  moreover have "k \<le> k'" using le by simp
  ultimately show ?case by blast
qed

lemma split_no_separator: "list_all (\<lambda>l. sep \<notin> set l) (split sep s)"
proof (induction s)
  case Nil
  show ?case by simp
next
  case (Cons c cs)
  obtain l ls where s: "split sep cs = l # ls"
    using split_not_Nil [of sep cs] by (cases "split sep cs") auto
  with Cons show ?case
    by (cases "c = sep") simp_all
qed

lemma hunk_lines_no_break: "l \<in> set (hunk_lines t) \<Longrightarrow> 0x0A \<notin> set l"
proof -
  assume "l \<in> set (hunk_lines t)"
  then have "l \<in> set (split 0x0A t)"
    by (simp add: hunk_lines_def Let_def split: if_splits) (rule in_set_butlastD)
  then show ?thesis
    using split_no_separator [of "0x0A" t] by (simp add: list_all_iff)
qed

lemma lines_no_break:
  assumes "map (\<lambda>e. (className e, prefix e, line e)) els =
         concat (map (\<lambda>p. map (\<lambda>l. (className_of p, prefix_of p, l)) (hunk_lines (value p))) parts)"
  shows "list_all (\<lambda>e. 0x0A \<notin> set (line e)) els"
proof -
  have "map line els = map (\<lambda>x. snd (snd x)) (map (\<lambda>e. (className e, prefix e, line e)) els)"
    by simp
  also have "\<dots> = concat (map (\<lambda>p. hunk_lines (value p)) parts)"
    unfolding assms by (simp add: map_concat comp_def)
  finally have m: "map line els = concat (map (\<lambda>p. hunk_lines (value p)) parts)" .
  have "0x0A \<notin> set (line e)" if "e \<in> set els" for e
  proof -
    from that have "line e \<in> set (map line els)" by simp
    then obtain p :: change where "line e \<in> set (hunk_lines (value p))"
      unfolding m by auto
    then show ?thesis by (rule hunk_lines_no_break)
  qed
  then show ?thesis by (simp add: list_all_iff)
qed

text \<open>
  C8: for every edit script the line formatter and the text formatter agree. The lines are
  those of each hunk in order, its text split on line breaks with a single trailing empty
  fragment dropped, none holding a line break; each line carries the class and the prefix
  of its hunk's kind, the prefix determined by the class; and the text is the lines, each
  after its prefix, joined by line breaks.
\<close>

theorem formatters_agree:
  "\<exists>els. renderedLines (Changes parts) = Some els
     \<and> diffText (Changes parts) = join [0x0A] (map (\<lambda>e. prefix e @ line e) els)
     \<and> map (\<lambda>e. (className e, prefix e, line e)) els =
         concat (map (\<lambda>p. map (\<lambda>l. (className_of p, prefix_of p, l)) (hunk_lines (value p))) parts)
     \<and> map prefix els =
         map (\<lambda>e. if className e = js ''add'' then js ''+ ''
                   else if className e = js ''remove'' then js ''- '' else js ''  '') els
     \<and> map key els = [0..<length els]
     \<and> list_all (\<lambda>e. 0x0A \<notin> set (line e)) els"
proof -
  from foldl_render_part [of "[]" 0 parts]
  obtain els k' where
    f: "foldl render_part ([], 0) parts = (els, k')"
    and t: "map (\<lambda>e. (className e, prefix e, line e)) els =
         concat (map (\<lambda>p. map (\<lambda>l. (className_of p, prefix_of p, l)) (hunk_lines (value p))) parts)"
    and k: "map key els = [0..<k']"
    by auto
  have r: "renderedLines (Changes parts) = Some els"
    using f by (simp add: renderedLines_def)
  have "map (\<lambda>e. prefix e @ line e) els =
          map (\<lambda>(c, p, l). p @ l) (map (\<lambda>e. (className e, prefix e, line e)) els)"
    by simp
  also have "\<dots> = concat (map (\<lambda>p. map ((@) (prefix_of p)) (hunk_lines (value p))) parts)"
    unfolding t by (simp add: map_concat comp_def)
  finally have d: "diffText (Changes parts) = join [0x0A] (map (\<lambda>e. prefix e @ line e) els)"
    by (simp add: diffText_def foldl_text_part)
  have "length els = k'"
    using k by (metis diff_zero length_map length_upt)
  with k have keys: "map key els = [0..<length els]" by simp
  have "\<forall>x \<in> set (map (\<lambda>e. (className e, prefix e, line e)) els).
          fst (snd x) = (if fst x = js ''add'' then js ''+ ''
                         else if fst x = js ''remove'' then js ''- '' else js ''  '')"
    unfolding t by (auto simp: className_of_def prefix_of_def js_def)
  then have p: "map prefix els =
         map (\<lambda>e. if className e = js ''add'' then js ''+ ''
                   else if className e = js ''remove'' then js ''- '' else js ''  '') els"
    by auto
  from r d t p keys lines_no_break [OF t] show ?thesis by blast
qed

section \<open>Sorting with a consistent comparator\<close>

lemma consistent_refl: "consistent cmp \<Longrightarrow> cmp a a = 0"
  by (simp add: consistent_def)

lemma consistent_total: "consistent cmp \<Longrightarrow> \<not> cmp a b \<le> 0 \<Longrightarrow> cmp b a \<le> 0"
  unfolding consistent_def by (metis not_le order_less_imp_le)

lemma consistent_trans: "consistent cmp \<Longrightarrow> cmp a b \<le> 0 \<Longrightarrow> cmp b c \<le> 0 \<Longrightarrow> cmp a c \<le> 0"
  unfolding consistent_def by blast

lemma consistent_tie_sym: "consistent cmp \<Longrightarrow> cmp a b = 0 \<Longrightarrow> cmp b a = 0"
  unfolding consistent_def by (metis less_irrefl linorder_neqE_linordered_idom)

lemma consistent_pullback: "consistent cmp \<Longrightarrow> consistent (\<lambda>a b. cmp (f a) (f b))"
  unfolding consistent_def by blast

lemma sort_by_Nil [simp]: "sort_by cmp [] = []"
  by (simp add: sort_by_def)

lemma sort_by_Cons [simp]: "sort_by cmp (x # xs) = insert_by cmp x (sort_by cmp xs)"
  by (simp add: sort_by_def)

lemma mset_insert_by [simp]: "mset (insert_by cmp x xs) = add_mset x (mset xs)"
  by (induction xs) auto

lemma mset_sort_by [simp]: "mset (sort_by cmp xs) = mset xs"
  by (induction xs) auto

lemma set_sort_by [simp]: "set (sort_by cmp xs) = set xs"
  by (metis mset_sort_by set_mset_mset)

lemma length_sort_by [simp]: "length (sort_by cmp xs) = length xs"
  by (metis mset_sort_by size_mset)

lemma set_insert_by [simp]: "set (insert_by cmp x xs) = insert x (set xs)"
  by (metis mset_insert_by set_mset_add_mset_insert set_mset_mset)

lemma sorted_insert_by:
  assumes "consistent cmp" and "sorted_wrt (\<lambda>a b. cmp a b \<le> 0) xs"
  shows "sorted_wrt (\<lambda>a b. cmp a b \<le> 0) (insert_by cmp x xs)"
  using assms(2)
proof (induction xs)
  case Nil
  show ?case by simp
next
  case (Cons y ys)
  show ?case
  proof (cases "cmp x y \<le> 0")
    case True
    then have "\<forall>z \<in> set ys. cmp x z \<le> 0"
      using Cons.prems consistent_trans [OF assms(1)] by auto
    with True Cons.prems show ?thesis by simp
  next
    case False
    then have "cmp y x \<le> 0" by (rule consistent_total [OF assms(1)])
    with False Cons show ?thesis by auto
  qed
qed

lemma sorted_sort_by:
  "consistent cmp \<Longrightarrow> sorted_wrt (\<lambda>a b. cmp a b \<le> 0) (sort_by cmp xs)"
  by (induction xs) (simp_all add: sorted_insert_by)

lemma insert_by_is_Cons: "\<forall>y \<in> set xs. cmp x y \<le> 0 \<Longrightarrow> insert_by cmp x xs = x # xs"
  by (cases xs) auto

lemma sort_by_sorted: "sorted_wrt (\<lambda>a b. cmp a b \<le> 0) xs \<Longrightarrow> sort_by cmp xs = xs"
  by (induction xs) (auto simp: insert_by_is_Cons)

lemma filter_insert_by:
  assumes "consistent cmp" and "sorted_wrt (\<lambda>a b. cmp a b \<le> 0) xs"
  shows "filter P (insert_by cmp x xs) =
           (if P x then insert_by cmp x (filter P xs) else filter P xs)"
  using assms(2)
proof (induction xs)
  case Nil
  show ?case by simp
next
  case (Cons y ys)
  show ?case
  proof (cases "cmp x y \<le> 0")
    case True
    then have "\<forall>z \<in> set (filter P (y # ys)). cmp x z \<le> 0"
      using Cons.prems consistent_trans [OF assms(1)] by auto
    then have "insert_by cmp x (filter P (y # ys)) = x # filter P (y # ys)"
      by (rule insert_by_is_Cons)
    with True show ?thesis by simp
  next
    case False
    with Cons show ?thesis by auto
  qed
qed

lemma filter_sort_by:
  "consistent cmp \<Longrightarrow> filter P (sort_by cmp xs) = sort_by cmp (filter P xs)"
  by (induction xs) (simp_all add: filter_insert_by sorted_sort_by)

lemma sorted_wrt_all: "\<forall>x \<in> set xs. \<forall>y \<in> set xs. P x y \<Longrightarrow> sorted_wrt P xs"
  by (induction xs) auto

lemma sort_by_stable:
  assumes "consistent cmp"
  shows "filter (\<lambda>y. cmp y k = 0) (sort_by cmp xs) = filter (\<lambda>y. cmp y k = 0) xs"
proof -
  have "\<forall>x \<in> set (filter (\<lambda>y. cmp y k = 0) xs). \<forall>y \<in> set (filter (\<lambda>y. cmp y k = 0) xs). cmp x y \<le> 0"
  proof (intro ballI)
    fix x y
    assume "x \<in> set (filter (\<lambda>y. cmp y k = 0) xs)" "y \<in> set (filter (\<lambda>y. cmp y k = 0) xs)"
    then have "cmp x k = 0" "cmp y k = 0" by auto
    then have "cmp x k \<le> 0" "cmp k y \<le> 0"
      using consistent_tie_sym [OF assms] by auto
    then show "cmp x y \<le> 0" by (rule consistent_trans [OF assms])
  qed
  then have "sort_by cmp (filter (\<lambda>y. cmp y k = 0) xs) = filter (\<lambda>y. cmp y k = 0) xs"
    by (intro sort_by_sorted sorted_wrt_all)
  then show ?thesis by (simp add: filter_sort_by [OF assms])
qed

lemma sort_by_stable_class:
  assumes "consistent cmp" and "\<And>x y. P x \<Longrightarrow> P y \<Longrightarrow> cmp x y \<le> 0"
  shows "filter P (sort_by cmp xs) = filter P xs"
proof -
  have "sort_by cmp (filter P xs) = filter P xs"
    by (intro sort_by_sorted sorted_wrt_all) (auto intro: assms(2))
  then show ?thesis by (simp add: filter_sort_by [OF assms(1)])
qed

text \<open>Without ties between different elements the sorted permutation is unique.\<close>

lemma sorted_permutation_unique:
  assumes "consistent cmp"
    and "\<And>a b. a \<in> set xs \<Longrightarrow> b \<in> set xs \<Longrightarrow> cmp a b = 0 \<Longrightarrow> a = b"
  shows "sorted_wrt (\<lambda>a b. cmp a b \<le> 0) xs \<Longrightarrow> sorted_wrt (\<lambda>a b. cmp a b \<le> 0) ys \<Longrightarrow>
         mset xs = mset ys \<Longrightarrow> xs = ys"
  using assms(2)
proof (induction xs arbitrary: ys)
  case Nil
  then show ?case by simp
next
  case (Cons x xs)
  from Cons.prems(3) obtain y ys' where ys: "ys = y # ys'"
    by (cases ys) auto
  have sx: "set (x # xs) = set (y # ys')"
    using Cons.prems(3) ys by (metis mset_eq_setD)
  have "cmp x y \<le> 0"
    using Cons.prems(1) sx consistent_refl [OF assms(1), of x] by (cases "y = x") auto
  moreover have "cmp y x \<le> 0"
    using Cons.prems(2) ys sx consistent_refl [OF assms(1), of y] by (cases "x = y") auto
  ultimately have "cmp x y = 0"
    using assms(1) unfolding consistent_def by (metis linorder_not_le order_antisym_conv)
  moreover have "y \<in> set (x # xs)" using sx by simp
  ultimately have xy: "x = y"
    using Cons.prems(4) [of x y] by simp
  with Cons.prems(3) ys have "mset xs = mset ys'" by simp
  moreover have "sorted_wrt (\<lambda>a b. cmp a b \<le> 0) xs" "sorted_wrt (\<lambda>a b. cmp a b \<le> 0) ys'"
    using Cons.prems(1,2) ys by simp_all
  ultimately have "xs = ys'"
    using Cons.IH [of ys'] Cons.prems(4) by simp
  with xy ys show ?case by simp
qed

lemma sort_by_permutation:
  assumes "consistent cmp"
    and "\<And>a b. a \<in> set xs \<Longrightarrow> b \<in> set xs \<Longrightarrow> cmp a b = 0 \<Longrightarrow> a = b"
    and "mset xs = mset ys"
  shows "sort_by cmp xs = sort_by cmp ys"
proof (rule sorted_permutation_unique [OF assms(1)])
  show "sorted_wrt (\<lambda>a b. cmp a b \<le> 0) (sort_by cmp xs)"
    and "sorted_wrt (\<lambda>a b. cmp a b \<le> 0) (sort_by cmp ys)"
    using assms(1) by (rule sorted_sort_by)+
  show "mset (sort_by cmp xs) = mset (sort_by cmp ys)"
    using assms(3) by simp
  show "a = b" if "a \<in> set (sort_by cmp xs)" "b \<in> set (sort_by cmp xs)" "cmp a b = 0" for a b
    using that assms(2) by simp
qed

section \<open>The example host\<close>

lemma compare_units_refl: "compare_units a a = 0"
  by (induction a) auto

lemma compare_units_antisym: "(compare_units a b < 0) = (0 < compare_units b a)"
  by (induction a b rule: compare_units.induct) auto

lemma compare_units_trans:
  "compare_units a b \<le> 0 \<Longrightarrow> compare_units b c \<le> 0 \<Longrightarrow> compare_units a c \<le> 0"
proof (induction a b arbitrary: c rule: compare_units.induct)
  case 1
  then show ?case by simp
next
  case (2 y ys)
  then show ?case by (cases c) auto
next
  case (3 x xs)
  then show ?case by simp
next
  case (4 x xs y ys)
  show ?case
  proof (cases c)
    case Nil
    with 4 show ?thesis by simp
  next
    case (Cons z zs)
    with 4 show ?thesis
      by (auto split: if_splits)
  qed
qed

lemma consistent_compare_units: "consistent compare_units"
  unfolding consistent_def
  using compare_units_refl compare_units_antisym compare_units_trans by blast

lemma consistent_example_host: "consistent (localeCompare example_host)"
proof -
  have "localeCompare example_host = (\<lambda>a b. compare_units (decompose a) (decompose b))"
    by (simp add: example_host_def example_compare_def fun_eq_iff)
  then show ?thesis
    using consistent_pullback [OF consistent_compare_units, of decompose] by simp
qed

lemmas eval_simps =
  js_def example_host_def example_compare_def decompose_def is_array_index_def is_digit_def
  index_value_def own_property_order_def fromEntries_def define_property_def
  normalizeForCompare_def JSON_stringify_def JSON_stringify2_def QuoteJSONString_def
  escape_unit_def is_lead_def is_trail_def unicode_escape_def hex_digit_def spec_reorder_def
  Let_def

section \<open>Normalization of sequences\<close>

text \<open>
  C2, as amended: with \<open>ignoreArrayOrder\<close> set and a consistent \<open>localeCompare\<close>, the
  normalized sequence is a permutation of the normalized elements, ascending in the
  \<open>localeCompare\<close> order of the elements' compact serializations \<open>JSON.stringify(a)\<close>.
\<close>

theorem normalize_sequence_order:
  assumes "consistent (localeCompare h)" and "ignoreArrayOrder opts"
  shows "\<exists>ys. normalizeForCompare h (JArray v) opts = JArray ys
     \<and> mset ys = mset (map (\<lambda>x. normalizeForCompare h x opts) v)
     \<and> sorted_wrt (\<lambda>a b. localeCompare h (JSON_stringify h a) (JSON_stringify h b) \<le> 0) ys"
proof -
  let ?cmp = "\<lambda>a b. localeCompare h (JSON_stringify h a) (JSON_stringify h b)"
  let ?mapped = "map (\<lambda>x. normalizeForCompare h x opts) v"
  have c: "consistent ?cmp"
    using assms(1) by (rule consistent_pullback)
  have eq: "normalizeForCompare h (JArray v) opts = JArray (sort_by ?cmp ?mapped)"
    using assms(2) by (simp add: normalizeForCompare_def [abs_def] Let_def)
  show ?thesis
    using eq sorted_sort_by [OF c, of ?mapped] by simp
qed

theorem normalize_sequence_order_witness:
  "consistent (localeCompare example_host)
   \<and> ignoreArrayOrder \<lparr>sortKeys = False, ignoreArrayOrder = True\<rparr>
   \<and> (\<exists>ys. normalizeForCompare example_host (JArray [JString (js ''b''), JString (js ''a'')])
               \<lparr>sortKeys = False, ignoreArrayOrder = True\<rparr> = JArray ys
     \<and> mset ys = mset (map (\<lambda>x. normalizeForCompare example_host x \<lparr>sortKeys = False, ignoreArrayOrder = True\<rparr>)
                      [JString (js ''b''), JString (js ''a'')])
     \<and> sorted_wrt (\<lambda>a b. localeCompare example_host (JSON_stringify example_host a)
                          (JSON_stringify example_host b) \<le> 0) ys)"
proof -
  have i: "ignoreArrayOrder \<lparr>sortKeys = False, ignoreArrayOrder = True\<rparr>" by simp
  show ?thesis
    using normalize_sequence_order [OF consistent_example_host i,
        of "[JString (js ''b''), JString (js ''a'')]"] consistent_example_host
    by simp
qed

text \<open>
  C2 as stated fails: ordering by the serialization the Canonical Serializer produces
  (indentation 2) puts \<open>["a"]\<close> before \<open>["a","b"]\<close>, the program puts it after.
\<close>

theorem sequence_order_counterexample:
  "normalizeForCompare example_host
     (JArray [JArray [JString (js ''a'')], JArray [JString (js ''a''), JString (js ''b'')]])
     \<lparr>sortKeys = False, ignoreArrayOrder = True\<rparr>
   \<noteq> JArray (spec_reorder example_host
       [normalizeForCompare example_host (JArray [JString (js ''a'')])
          \<lparr>sortKeys = False, ignoreArrayOrder = True\<rparr>,
        normalizeForCompare example_host (JArray [JString (js ''a''), JString (js ''b'')])
          \<lparr>sortKeys = False, ignoreArrayOrder = True\<rparr>])"
  by code_simp

text \<open>The sort is stable: elements whose serializations tie keep their relative order.\<close>

lemma normalize_sequence_stable:
  assumes "consistent (localeCompare h)" and "ignoreArrayOrder opts"
    and "normalizeForCompare h (JArray v) opts = JArray ys"
  shows "filter (\<lambda>y. localeCompare h (JSON_stringify h y) k = 0) ys
            = filter (\<lambda>y. localeCompare h (JSON_stringify h y) k = 0)
                (map (\<lambda>x. normalizeForCompare h x opts) v)"
proof -
  let ?cmp = "\<lambda>a b. localeCompare h (JSON_stringify h a) (JSON_stringify h b)"
  let ?mapped = "map (\<lambda>x. normalizeForCompare h x opts) v"
  have c: "consistent ?cmp"
    using assms(1) by (rule consistent_pullback)
  have eq: "ys = sort_by ?cmp ?mapped"
    using assms(2,3) by (simp add: normalizeForCompare_def [abs_def] Let_def)
  show ?thesis
    unfolding eq
  proof (rule sort_by_stable_class [OF c])
    fix x y
    assume "localeCompare h (JSON_stringify h x) k = 0" "localeCompare h (JSON_stringify h y) k = 0"
    then have "localeCompare h (JSON_stringify h x) k \<le> 0" "localeCompare h k (JSON_stringify h y) \<le> 0"
      using consistent_tie_sym [OF assms(1)] by auto
    then show "localeCompare h (JSON_stringify h x) (JSON_stringify h y) \<le> 0"
      by (rule consistent_trans [OF assms(1)])
  qed
qed

section \<open>Array indices and property order\<close>

lemma digit_bounds: "is_digit c \<Longrightarrow> 48 \<le> unat c \<and> unat c \<le> 57"
  by (simp add: is_digit_def word_le_nat_alt)

lemma digit_inj: "is_digit c \<Longrightarrow> is_digit d \<Longrightarrow> unat c - 48 = unat d - 48 \<Longrightarrow> c = d"
  using digit_bounds [of c] digit_bounds [of d] by (auto simp add: word_unat_eq_iff)

lemma index_value_snoc: "index_value (k @ [c]) = 10 * index_value k + (unat c - 48)"
  by (simp add: index_value_def)

lemma index_value_Nil: "index_value [] = 0"
  by (simp add: index_value_def)

lemma index_value_upper: "list_all is_digit k \<Longrightarrow> index_value k < 10 ^ length k"
proof (induction k rule: rev_induct)
  case Nil
  show ?case by (simp add: index_value_Nil)
next
  case (snoc c k)
  then have "index_value k < 10 ^ length k" and "unat c - 48 < 10"
    using digit_bounds [of c] by auto
  then show ?case by (simp add: index_value_snoc)
qed

lemma index_value_lower:
  "k \<noteq> [] \<Longrightarrow> list_all is_digit k \<Longrightarrow> hd k \<noteq> 0x30 \<Longrightarrow> 10 ^ (length k - 1) \<le> index_value k"
proof (induction k rule: rev_induct)
  case Nil
  then show ?case by simp
next
  case (snoc c k)
  show ?case
  proof (cases "k = []")
    case True
    with snoc.prems have "is_digit c" "c \<noteq> 0x30" by auto
    then have "1 \<le> unat c - 48"
      using digit_bounds [of c] by (cases "unat c = 48") (auto simp: word_unat_eq_iff)
    with True show ?thesis by (simp add: index_value_def)
  next
    case False
    with snoc have "10 ^ (length k - 1) \<le> index_value k" by auto
    then have "10 * 10 ^ (length k - 1) \<le> 10 * index_value k" by simp
    moreover have "(10::nat) * 10 ^ (length k - 1) = 10 ^ length k"
      using False by (cases k) auto
    ultimately show ?thesis by (simp add: index_value_snoc)
  qed
qed

lemma index_value_inj_same_length:
  "length a = length b \<Longrightarrow> list_all is_digit a \<Longrightarrow> list_all is_digit b \<Longrightarrow>
   index_value a = index_value b \<Longrightarrow> a = b"
proof (induction a arbitrary: b rule: rev_induct)
  case Nil
  then show ?case by simp
next
  case (snoc c a)
  from snoc.prems(1) obtain d b' where b: "b = b' @ [d]"
    by (cases b rule: rev_cases) auto
  from snoc.prems b have dc: "is_digit c" "is_digit d" by auto
  then have lt: "unat c - 48 < 10" "unat d - 48 < 10"
    using digit_bounds [of c] digit_bounds [of d] by auto
  from snoc.prems(4) b
  have e: "10 * index_value a + (unat c - 48) = 10 * index_value b' + (unat d - 48)"
    by (simp add: index_value_snoc)
  have "(10 * index_value a + (unat c - 48)) div 10 = index_value a"
    and "(10 * index_value b' + (unat d - 48)) div 10 = index_value b'"
    using lt by simp_all
  with e have v: "index_value a = index_value b'" by simp
  with e have "unat c - 48 = unat d - 48" by simp
  note v this
  with snoc.IH [of b'] snoc.prems b dc show ?case
    by (auto dest: digit_inj)
qed

lemma index_value_inj:
  assumes "is_array_index a" and "is_array_index b" and "index_value a = index_value b"
  shows "a = b"
proof -
  have da: "a \<noteq> []" "list_all is_digit a" "length a = 1 \<or> hd a \<noteq> 0x30"
    and db: "b \<noteq> []" "list_all is_digit b" "length b = 1 \<or> hd b \<noteq> 0x30"
    using assms by (auto simp: is_array_index_def)
  have shorter: "index_value x < index_value y"
    if "length x < length y" "x \<noteq> []" "list_all is_digit x" "list_all is_digit y"
      "length y = 1 \<or> hd y \<noteq> 0x30" for x y
  proof -
    from that(1) have "y \<noteq> []" by auto
    from that(1,2) have "length y \<noteq> 1" by (cases x) auto
    with that(5) have "hd y \<noteq> 0x30" by simp
    have "10 ^ (length y - 1) \<le> index_value y"
      using \<open>y \<noteq> []\<close> that(4) \<open>hd y \<noteq> 0x30\<close> by (rule index_value_lower)
    moreover have "index_value x < 10 ^ length x"
      using that(3) by (rule index_value_upper)
    moreover have "(10::nat) ^ length x \<le> 10 ^ (length y - 1)"
      using that(1) by (intro power_increasing) auto
    ultimately show ?thesis by linarith
  qed
  have "length a = length b"
  proof (rule ccontr)
    assume "length a \<noteq> length b"
    then consider "length a < length b" | "length b < length a" by linarith
    then show False
    proof cases
      case 1
      from shorter [OF 1 da(1,2) db(2,3)] assms(3) show False by simp
    next
      case 2
      from shorter [OF 2 db(1,2) da(2,3)] assms(3) show False by simp
    qed
  qed
  then show ?thesis
    using da(2) db(2) assms(3) by (rule index_value_inj_same_length)
qed

lemma foldl_define_property_distinct:
  "distinct (map fst (acc @ es)) \<Longrightarrow> foldl define_property acc es = acc @ es"
proof (induction es arbitrary: acc)
  case Nil
  show ?case by simp
next
  case (Cons e es)
  then have "fst e \<notin> set (map fst acc)" by auto
  then have "define_property acc e = acc @ [e]" by (simp add: define_property_def)
  with Cons.IH [of "acc @ [e]"] Cons.prems show ?case by simp
qed

lemma fromEntries_distinct:
  "distinct (map fst es) \<Longrightarrow> fromEntries es = own_property_order es"
  using foldl_define_property_distinct [of "[]" es] by (simp add: fromEntries_def)

lemma mset_own_property_order [simp]: "mset (own_property_order es) = mset es"
  by (simp add: own_property_order_def)

lemma set_own_property_order [simp]: "set (own_property_order es) = set es"
  by (metis mset_own_property_order set_mset_mset)

lemma distinct_keys_mset:
  "mset xs = mset ys \<Longrightarrow> distinct (map fst xs) \<Longrightarrow> distinct (map fst ys)"
  by (metis mset_eq_imp_distinct_iff mset_map)

lemma filter_index_own_property_order:
  "filter (\<lambda>(k, v). is_array_index k) (own_property_order es) =
     sort_key (\<lambda>(k, v). index_value k) (filter (\<lambda>(k, v). is_array_index k) es)"
  by (simp add: own_property_order_def filter_sort case_prod_unfold)

lemma filter_other_own_property_order:
  "filter (\<lambda>(k, v). \<not> is_array_index k) (own_property_order es) =
     filter (\<lambda>(k, v). \<not> is_array_index k) es"
  by (simp add: own_property_order_def filter_sort case_prod_unfold)

lemma own_property_order_split:
  "own_property_order es =
     filter (\<lambda>(k, v). is_array_index k) (own_property_order es)
     @ filter (\<lambda>(k, v). \<not> is_array_index k) (own_property_order es)"
  by (simp add: filter_index_own_property_order filter_other_own_property_order)
     (simp add: own_property_order_def)

lemma own_property_order_fixed:
  assumes "own_property_order es = es"
  shows "sorted (map (\<lambda>(k, v). index_value k) (filter (\<lambda>(k, v). is_array_index k) es))"
    and "es = filter (\<lambda>(k, v). is_array_index k) es @ filter (\<lambda>(k, v). \<not> is_array_index k) es"
proof -
  have "filter (\<lambda>(k, v). is_array_index k) es =
          sort_key (\<lambda>(k, v). index_value k) (filter (\<lambda>(k, v). is_array_index k) es)"
    using filter_index_own_property_order [of es] assms by simp
  then show "sorted (map (\<lambda>(k, v). index_value k) (filter (\<lambda>(k, v). is_array_index k) es))"
    by (metis sorted_sort_key)
  show "es = filter (\<lambda>(k, v). is_array_index k) es @ filter (\<lambda>(k, v). \<not> is_array_index k) es"
    using own_property_order_split [of es] assms by simp
qed

lemma own_property_order_id:
  assumes "sorted (map (\<lambda>(k, v). index_value k) (filter (\<lambda>(k, v). is_array_index k) es))"
    and "es = filter (\<lambda>(k, v). is_array_index k) es @ filter (\<lambda>(k, v). \<not> is_array_index k) es"
  shows "own_property_order es = es"
  using assms by (simp add: own_property_order_def sort_key_id_if_sorted)

lemma own_property_order_idem [simp]:
  "own_property_order (own_property_order es) = own_property_order es"
proof (rule own_property_order_id)
  show "sorted (map (\<lambda>(k, v). index_value k)
          (filter (\<lambda>(k, v). is_array_index k) (own_property_order es)))"
    by (simp add: filter_index_own_property_order)
  show "own_property_order es =
     filter (\<lambda>(k, v). is_array_index k) (own_property_order es)
     @ filter (\<lambda>(k, v). \<not> is_array_index k) (own_property_order es)"
    by (rule own_property_order_split)
qed

lemma own_property_order_map_values:
  assumes "own_property_order es = es"
  shows "own_property_order (map (\<lambda>(k, v). (k, g v)) es) = map (\<lambda>(k, v). (k, g v)) es"
proof (rule own_property_order_id)
  let ?f = "\<lambda>(k, v). (k, g v)"
  have i: "filter (\<lambda>(k, v). is_array_index k) (map ?f es) =
             map ?f (filter (\<lambda>(k, v). is_array_index k) es)"
    by (simp add: filter_map comp_def case_prod_unfold)
  have o: "filter (\<lambda>(k, v). \<not> is_array_index k) (map ?f es) =
             map ?f (filter (\<lambda>(k, v). \<not> is_array_index k) es)"
    by (simp add: filter_map comp_def case_prod_unfold)
  show "sorted (map (\<lambda>(k, v). index_value k) (filter (\<lambda>(k, v). is_array_index k) (map ?f es)))"
    unfolding i using own_property_order_fixed(1) [OF assms]
    by (simp add: comp_def case_prod_unfold)
  show "map ?f es = filter (\<lambda>(k, v). is_array_index k) (map ?f es)
          @ filter (\<lambda>(k, v). \<not> is_array_index k) (map ?f es)"
    unfolding i o map_append [symmetric]
    using own_property_order_fixed(2) [OF assms] by simp
qed

lemma index_keys_inj:
  assumes "distinct (map fst es)"
  shows "inj_on (\<lambda>(k, v). index_value k) (set (filter (\<lambda>(k, v). is_array_index k) es))"
proof (rule inj_onI)
  fix x y
  assume x: "x \<in> set (filter (\<lambda>(k, v). is_array_index k) es)"
    and y: "y \<in> set (filter (\<lambda>(k, v). is_array_index k) es)"
    and e: "(case x of (k, v) \<Rightarrow> index_value k) = (case y of (k, v) \<Rightarrow> index_value k)"
  then have "fst x = fst y"
    by (auto intro: index_value_inj)
  moreover from assms have "inj_on fst (set es)"
    by (simp add: distinct_map)
  ultimately show "x = y"
    using x y by (auto dest: inj_onD)
qed

lemma filter_same_key:
  "distinct xs \<Longrightarrow> inj_on f (set xs) \<Longrightarrow> k \<in> set xs \<Longrightarrow> filter (\<lambda>x. f k = f x) xs = [k]"
proof (induction xs)
  case Nil
  then show ?case by simp
next
  case (Cons x xs)
  show ?case
  proof (cases "k = x")
    case True
    with Cons.prems have "filter (\<lambda>y. f k = f y) xs = []"
      by (auto simp: filter_empty_conv)
    with True show ?thesis by simp
  next
    case False
    with Cons.prems have k: "k \<in> set xs" and ne: "f k \<noteq> f x"
      by (auto simp: inj_on_def)
    from Cons.prems have "distinct xs" "inj_on f (set xs)"
      by auto
    with Cons.IH k have "filter (\<lambda>x. f k = f x) xs = [k]" by simp
    with ne show ?thesis by simp
  qed
qed

lemma sort_key_permutation:
  assumes "mset xs = mset ys" and "distinct xs" and "inj_on f (set xs)"
  shows "sort_key f xs = sort_key f ys"
proof (rule properties_for_sort_key [symmetric])
  show "mset (sort_key f xs) = mset ys"
    using assms(1) by simp
  show "sorted (map f (sort_key f xs))"
    by simp
  fix k
  assume "k \<in> set (sort_key f xs)"
  then have k: "k \<in> set xs" by simp
  have dy: "distinct ys" and sy: "set ys = set xs"
    using assms(1,2) by (metis mset_eq_imp_distinct_iff, metis mset_eq_setD)
  have "filter (\<lambda>x. f k = f x) (sort_key f xs) = sort_key f (filter (\<lambda>x. f k = f x) xs)"
    by (simp add: filter_sort)
  also have "\<dots> = [k]"
    using filter_same_key [OF assms(2,3) k] by simp
  also have "\<dots> = filter (\<lambda>x. f k = f x) ys"
    using filter_same_key [of ys f k] dy sy assms(3) k by simp
  finally show "filter (\<lambda>x. f k = f x) (sort_key f xs) = filter (\<lambda>x. f k = f x) ys" .
qed

lemma own_property_order_cong:
  assumes "distinct (map fst xs)" and "mset xs = mset ys"
    and "filter (\<lambda>(k, v). \<not> is_array_index k) xs = filter (\<lambda>(k, v). \<not> is_array_index k) ys"
  shows "own_property_order xs = own_property_order ys"
proof -
  have "distinct xs" using assms(1) by (simp add: distinct_map)
  then have "sort_key (\<lambda>(k, v). index_value k) (filter (\<lambda>(k, v). is_array_index k) xs) =
        sort_key (\<lambda>(k, v). index_value k) (filter (\<lambda>(k, v). is_array_index k) ys)"
    using assms(2) index_keys_inj [OF assms(1)]
    by (intro sort_key_permutation) simp_all
  with assms(3) show ?thesis by (simp add: own_property_order_def)
qed

section \<open>Normalization of mappings\<close>

lemma consistent_key_compare:
  "consistent (localeCompare h) \<Longrightarrow> consistent (\<lambda>(a, _) (b, _). localeCompare h a b)"
  using consistent_pullback [of "localeCompare h" fst] by (simp add: case_prod_unfold)

lemma distinct_keys_map_values:
  "map fst (map (\<lambda>(k, val). (k, g val)) es) = map fst es"
  by (induction es) auto

text \<open>
  C3, as amended: on an object, with a consistent \<open>localeCompare\<close>, normalization keeps
  the keys and normalizes each value. Without \<open>sortKeys\<close> the entries keep their order.
  With \<open>sortKeys\<close> the array-index keys come first, in ascending numeric order, and the
  other keys follow in ascending \<open>localeCompare\<close> order.
\<close>

theorem normalize_mapping_order:
  assumes "consistent (localeCompare h)" and "wf_json (JObject es)"
  shows "\<exists>es'. normalizeForCompare h (JObject es) opts = JObject es'
     \<and> mset es' = mset (map (\<lambda>(k, v). (k, normalizeForCompare h v opts)) es)
     \<and> (if sortKeys opts
        then es' = filter (\<lambda>(k, v). is_array_index k) es' @ filter (\<lambda>(k, v). \<not> is_array_index k) es'
           \<and> sorted_wrt (\<lambda>a b. index_value (fst a) < index_value (fst b))
               (filter (\<lambda>(k, v). is_array_index k) es')
           \<and> sorted_wrt (\<lambda>a b. localeCompare h (fst a) (fst b) \<le> 0)
               (filter (\<lambda>(k, v). \<not> is_array_index k) es')
        else es' = map (\<lambda>(k, v). (k, normalizeForCompare h v opts)) es)"
proof -
  let ?entries = "map (\<lambda>(k, v). (k, normalizeForCompare h v opts)) es"
  let ?cmp = "\<lambda>(a, _) (b, _). localeCompare h a b"
  from assms(2) have d: "distinct (map fst es)" and o: "own_property_order es = es"
    by simp_all
  have de: "distinct (map fst ?entries)"
    using d by (simp only: distinct_keys_map_values)
  show ?thesis
  proof (cases "sortKeys opts")
    case False
    have "fromEntries ?entries = ?entries"
      using fromEntries_distinct [OF de] own_property_order_map_values [OF o] by simp
    then have "normalizeForCompare h (JObject es) opts = JObject ?entries"
      using False by (simp add: normalizeForCompare_def [abs_def] Let_def)
    with False show ?thesis by simp
  next
    case True
    let ?S = "sort_by ?cmp ?entries"
    let ?es' = "own_property_order ?S"
    have c: "consistent ?cmp"
      using assms(1) by (rule consistent_key_compare)
    have dS: "distinct (map fst ?S)"
      using de by (rule distinct_keys_mset [rotated]) simp
    have eq: "normalizeForCompare h (JObject es) opts = JObject ?es'"
      using True fromEntries_distinct [OF dS]
      by (simp add: normalizeForCompare_def [abs_def] Let_def)
    have m: "mset ?es' = mset ?entries" by simp
    have s: "?es' = filter (\<lambda>(k, v). is_array_index k) ?es' @ filter (\<lambda>(k, v). \<not> is_array_index k) ?es'"
      by (rule own_property_order_split)
    have i: "sorted_wrt (\<lambda>a b. index_value (fst a) < index_value (fst b))
               (filter (\<lambda>(k, v). is_array_index k) ?es')"
    proof -
      let ?A = "sort_key (\<lambda>(k, v). index_value k) (filter (\<lambda>(k, v). is_array_index k) ?S)"
      have "distinct ?S" using dS by (simp add: distinct_map)
      then have "distinct ?A" by simp
      moreover have "inj_on (\<lambda>(k, v). index_value k) (set ?A)"
        using index_keys_inj [OF dS] by simp
      ultimately have "distinct (map (\<lambda>(k, v). index_value k) ?A)"
        by (simp add: distinct_map)
      moreover have "sorted (map (\<lambda>(k, v). index_value k) ?A)"
        by (rule sorted_sort_key)
      ultimately have "sorted_wrt (<) (map (\<lambda>(k, v). index_value k) ?A)"
        by (simp add: strict_sorted_iff)
      then have "sorted_wrt (\<lambda>a b. index_value (fst a) < index_value (fst b)) ?A"
        by (simp add: sorted_wrt_map case_prod_unfold)
      then show ?thesis
        by (simp only: filter_index_own_property_order)
    qed
    have n: "sorted_wrt (\<lambda>a b. localeCompare h (fst a) (fst b) \<le> 0)
               (filter (\<lambda>(k, v). \<not> is_array_index k) ?es')"
    proof -
      have "sorted_wrt (\<lambda>a b. ?cmp a b \<le> 0) ?S"
        using c by (rule sorted_sort_by)
      then have "sorted_wrt (\<lambda>a b. localeCompare h (fst a) (fst b) \<le> 0) ?S"
        by (simp add: case_prod_unfold)
      then have "sorted_wrt (\<lambda>a b. localeCompare h (fst a) (fst b) \<le> 0)
                   (filter (\<lambda>(k, v). \<not> is_array_index k) ?S)"
        by (rule sorted_wrt_filter)
      then show ?thesis
        by (simp only: filter_other_own_property_order)
    qed
    from eq m s i n True show ?thesis by auto
  qed
qed


lemma example_object_wf:
  "wf_json (JObject [(js ''2'', JBool True), (js ''10'', JNull), (js ''b'', JString (js ''x'')),
                     (js ''a'', JNull)] :: int json)"
  by (simp add: eval_simps)

lemma example_object_normalized:
  "normalizeForCompare example_host
        (JObject [(js ''2'', JBool True), (js ''10'', JNull), (js ''b'', JString (js ''x'')),
                  (js ''a'', JNull)])
        \<lparr>sortKeys = True, ignoreArrayOrder = False\<rparr>
      = JObject [(js ''2'', JBool True), (js ''10'', JNull), (js ''a'', JNull),
                 (js ''b'', JString (js ''x''))]"
  by (simp add: eval_simps)

theorem normalize_mapping_order_witness:
  "consistent (localeCompare example_host)
   \<and> wf_json (JObject [(js ''2'', JBool True), (js ''10'', JNull), (js ''b'', JString (js ''x'')),
                     (js ''a'', JNull)] :: int json)
   \<and> normalizeForCompare example_host
        (JObject [(js ''2'', JBool True), (js ''10'', JNull), (js ''b'', JString (js ''x'')),
                  (js ''a'', JNull)])
        \<lparr>sortKeys = True, ignoreArrayOrder = False\<rparr>
      = JObject [(js ''2'', JBool True), (js ''10'', JNull), (js ''a'', JNull),
                 (js ''b'', JString (js ''x''))]"
proof -
  let ?es = "[(js ''2'', JBool True), (js ''10'', JNull), (js ''b'', JString (js ''x'')),
              (js ''a'', JNull)] :: (jstring \<times> int json) list"
  let ?opts = "\<lparr>sortKeys = True, ignoreArrayOrder = False\<rparr>"
  from normalize_mapping_order [OF consistent_example_host example_object_wf, of ?opts]
  obtain es' where "normalizeForCompare example_host (JObject ?es) ?opts = JObject es'"
    by blast
  then show ?thesis
    using consistent_example_host example_object_wf example_object_normalized by simp
qed

text \<open>
  C3 as stated fails: with \<open>sortKeys\<close> the keys \<open>2\<close> and \<open>10\<close> are emitted in this order, and
  \<open>2\<close> comes after \<open>10\<close> both in the \<open>localeCompare\<close> order and by code units.
\<close>

theorem mapping_order_counterexample:
  "normalizeForCompare example_host (JObject [(js ''2'', JNull), (js ''10'', JNull)])
     \<lparr>sortKeys = True, ignoreArrayOrder = False\<rparr>
     = JObject [(js ''2'', JNull), (js ''10'', JNull)]
   \<and> wf_json (JObject [(js ''2'', JNull), (js ''10'', JNull)] :: int json)
   \<and> 0 < localeCompare example_host (js ''2'') (js ''10'')
   \<and> 0 < compare_units (js ''2'') (js ''10'')"
  by (simp add: eval_simps)

section \<open>Idempotence and order-insensitivity\<close>

lemma deep_array:
  "deep h opts (JArray v) =
     JArray (if ignoreArrayOrder opts
             then sort_by (\<lambda>a b. localeCompare h (JSON_stringify h a) (JSON_stringify h b))
                    (map (deep h opts) v)
             else map (deep h opts) v)"
  by (simp add: Let_def)

lemma deep_object:
  "deep h opts (JObject es) =
     JObject (fromEntries
       (if sortKeys opts
        then sort_by (\<lambda>(a, _) (b, _). localeCompare h a b) (map (\<lambda>(k, val). (k, deep h opts val)) es)
        else map (\<lambda>(k, val). (k, deep h opts val)) es))"
  by (simp add: Let_def)

lemma deep_idempotent:
  "consistent (localeCompare h) \<Longrightarrow> wf_json v \<Longrightarrow>
   deep h opts (deep h opts v) = deep h opts v"
proof (induction h opts v rule: deep.induct)
  case (1 h opts v)
  note assms = "1.prems"(1)
  let ?cmp = "\<lambda>a b. localeCompare h (JSON_stringify h a) (JSON_stringify h b)"
  let ?M = "map (deep h opts) v"
  let ?S = "if ignoreArrayOrder opts then sort_by ?cmp ?M else ?M"
  have c: "consistent ?cmp"
    using assms by (rule consistent_pullback)
  have fixed: "deep h opts y = y" if "y \<in> set ?M" for y
  proof -
    from that obtain x where "x \<in> set v" "y = deep h opts x" by auto
    moreover from this "1.prems"(2) have "wf_json x" by (simp add: list_all_iff)
    ultimately show ?thesis using "1.IH" assms by simp
  qed
  have "set ?S = set ?M" by simp
  then have m: "map (deep h opts) ?S = ?S"
    using fixed by (intro map_idI) blast
  have s: "ignoreArrayOrder opts \<Longrightarrow> sort_by ?cmp ?S = ?S"
    using sorted_sort_by [OF c, of ?M] by (simp add: sort_by_sorted)
  have "deep h opts (JArray ?S) = JArray ?S"
    unfolding deep_array m using s by simp
  then show ?case
    unfolding deep_array [of h opts v] .
next
  case (2 h opts es)
  note assms = "2.prems"(1)
  let ?f = "\<lambda>(k, val). (k, deep h opts val)"
  let ?cmp = "\<lambda>(a, _) (b, _). localeCompare h a b"
  let ?E = "map ?f es"
  let ?T = "if sortKeys opts then sort_by ?cmp ?E else ?E"
  let ?F = "fromEntries ?T"
  have c: "consistent ?cmp"
    using assms by (rule consistent_key_compare)
  from "2.prems"(2) have d: "distinct (map fst es)" and w: "list_all (\<lambda>(k, v). wf_json v) es"
    by simp_all
  have dE: "distinct (map fst ?E)"
    using d by (simp only: distinct_keys_map_values)
  have mT: "mset ?T = mset ?E" by simp
  have dT: "distinct (map fst ?T)"
    using dE by (rule distinct_keys_mset [rotated]) (simp only: mT)
  have F: "?F = own_property_order ?T"
    using dT by (rule fromEntries_distinct)
  have mF: "mset ?F = mset ?E"
    unfolding F by (simp only: mset_own_property_order mT)
  have dF: "distinct (map fst ?F)"
    using dE by (rule distinct_keys_mset [rotated]) (simp only: mF)
  have fixed: "?f e = e" if "e \<in> set ?E" for e
  proof -
    from that obtain k x where kx: "(k, x) \<in> set es" "e = (k, deep h opts x)" by auto
    with w have "wf_json x" by (auto simp: list_all_iff)
    with "2.IH" kx assms have "deep h opts (deep h opts x) = deep h opts x" by blast
    with kx show ?thesis by simp
  qed
  have "set ?F = set ?E"
    using mF by (rule mset_eq_setD)
  then have m: "map ?f ?F = ?F"
    using fixed by (intro map_idI) blast
  have again: "fromEntries (if sortKeys opts then sort_by ?cmp ?F else ?F) = ?F"
  proof (cases "sortKeys opts")
    case False
    then have "fromEntries ?F = own_property_order (own_property_order ?T)"
      using fromEntries_distinct [OF dF] F by simp
    with False F show ?thesis by simp
  next
    case True
    let ?S = "sort_by ?cmp ?E"
    let ?F' = "own_property_order ?S"
    from True F have F': "?F = ?F'" by simp
    have dS2: "distinct (map fst (sort_by ?cmp ?F'))"
      using dF unfolding F' by (rule distinct_keys_mset [rotated]) simp
    have "filter (\<lambda>(k, v). \<not> is_array_index k) (sort_by ?cmp ?F')
            = sort_by ?cmp (filter (\<lambda>(k, v). \<not> is_array_index k) ?F')"
      by (rule filter_sort_by [OF c])
    also have "\<dots> = sort_by ?cmp (filter (\<lambda>(k, v). \<not> is_array_index k) ?S)"
      by (simp only: filter_other_own_property_order)
    also have "\<dots> = filter (\<lambda>(k, v). \<not> is_array_index k) (sort_by ?cmp ?S)"
      by (rule filter_sort_by [OF c, symmetric])
    also have "sort_by ?cmp ?S = ?S"
      using sorted_sort_by [OF c, of ?E] by (rule sort_by_sorted)
    finally have n: "filter (\<lambda>(k, v). \<not> is_array_index k) (sort_by ?cmp ?F')
            = filter (\<lambda>(k, v). \<not> is_array_index k) ?S" .
    have "own_property_order (sort_by ?cmp ?F') = own_property_order ?S"
      using dS2 _ n by (rule own_property_order_cong) simp
    then have "fromEntries (sort_by ?cmp ?F') = ?F'"
      using fromEntries_distinct [OF dS2] by simp
    with True F' show ?thesis by simp
  qed
  have "deep h opts (JObject ?F) = JObject ?F"
    unfolding deep_object m using again by simp
  then show ?case
    unfolding deep_object [of h opts es] .
qed simp_all

text \<open>
  C5: normalization is idempotent, for every parsed value and all options, given a
  consistent \<open>localeCompare\<close>.
\<close>

theorem normalize_idempotent:
  assumes "consistent (localeCompare h)" and "wf_json v"
  shows "normalizeForCompare h (normalizeForCompare h v opts) opts = normalizeForCompare h v opts"
  using deep_idempotent [OF assms] by (simp add: normalizeForCompare_def)

lemma example_value_wf:
  "wf_json (JObject [(js ''2'', JBool True), (js ''10'', JNull),
                     (js ''b'', JArray [JString (js ''b''), JString (js ''a'')]),
                     (js ''a'', JNull)] :: int json)"
  by (simp add: eval_simps)

theorem normalize_idempotent_witness:
  "consistent (localeCompare example_host)
   \<and> wf_json (JObject [(js ''2'', JBool True), (js ''10'', JNull),
                     (js ''b'', JArray [JString (js ''b''), JString (js ''a'')]),
                     (js ''a'', JNull)] :: int json)
   \<and> normalizeForCompare example_host
       (normalizeForCompare example_host
          (JObject [(js ''2'', JBool True), (js ''10'', JNull),
                    (js ''b'', JArray [JString (js ''b''), JString (js ''a'')]),
                    (js ''a'', JNull)])
          \<lparr>sortKeys = True, ignoreArrayOrder = True\<rparr>)
       \<lparr>sortKeys = True, ignoreArrayOrder = True\<rparr>
     = normalizeForCompare example_host
          (JObject [(js ''2'', JBool True), (js ''10'', JNull),
                    (js ''b'', JArray [JString (js ''b''), JString (js ''a'')]),
                    (js ''a'', JNull)])
          \<lparr>sortKeys = True, ignoreArrayOrder = True\<rparr>"
  using normalize_idempotent [OF consistent_example_host example_value_wf]
    consistent_example_host example_value_wf
  by simp

text \<open>
  C6, at inputs where it fails: two strings whose serializations \<open>localeCompare\<close> ties.
  With \<open>ignoreArrayOrder\<close> set, the sequence of the two and its permutation are both left
  as they are, so their normal forms differ. Canonically equivalent strings, such as
  U+00E9 and U+0065 U+0301, are tied by every \<open>localeCompare\<close>.
\<close>

theorem sequence_order_ties:
  assumes "ignoreArrayOrder opts"
    and "localeCompare h (QuoteJSONString s) (QuoteJSONString t) = 0"
    and "localeCompare h (QuoteJSONString t) (QuoteJSONString s) = 0"
  shows "normalizeForCompare h (JArray [JString s, JString t]) opts = JArray [JString s, JString t]
       \<and> normalizeForCompare h (JArray [JString t, JString s]) opts = JArray [JString t, JString s]"
  using assms by (simp add: normalizeForCompare_def JSON_stringify_def)

lemma example_tie:
  "localeCompare example_host (QuoteJSONString [0xE9]) (QuoteJSONString [0x65, 0x301]) = 0"
  "localeCompare example_host (QuoteJSONString [0x65, 0x301]) (QuoteJSONString [0xE9]) = 0"
  by (simp_all add: eval_simps)

theorem sequence_order_ties_witness:
  "ignoreArrayOrder \<lparr>sortKeys = False, ignoreArrayOrder = True\<rparr>
   \<and> localeCompare example_host (QuoteJSONString [0xE9]) (QuoteJSONString [0x65, 0x301]) = 0
   \<and> localeCompare example_host (QuoteJSONString [0x65, 0x301]) (QuoteJSONString [0xE9]) = 0
   \<and> normalizeForCompare example_host (JArray [JString [0xE9], JString [0x65, 0x301]])
         \<lparr>sortKeys = False, ignoreArrayOrder = True\<rparr>
       = JArray [JString [0xE9], JString [0x65, 0x301]]
   \<and> normalizeForCompare example_host (JArray [JString [0x65, 0x301], JString [0xE9]])
         \<lparr>sortKeys = False, ignoreArrayOrder = True\<rparr>
       = JArray [JString [0x65, 0x301], JString [0xE9]]
   \<and> (JArray [JString [0xE9], JString [0x65, 0x301]] :: int json)
       \<noteq> JArray [JString [0x65, 0x301], JString [0xE9]]"
proof -
  have i: "ignoreArrayOrder \<lparr>sortKeys = False, ignoreArrayOrder = True\<rparr>" by simp
  show ?thesis
    using sequence_order_ties [OF i example_tie] example_tie by simp
qed

text \<open>
  Where no two different normalized elements have serializations that tie, a sequence and
  its permutations have the same normal form.
\<close>

lemma normalize_permuted_sequence:
  assumes "consistent (localeCompare h)" and "ignoreArrayOrder opts"
    and "mset xs = mset ys"
    and "\<And>a b. a \<in> set xs \<Longrightarrow> b \<in> set xs \<Longrightarrow>
           localeCompare h (JSON_stringify h (normalizeForCompare h a opts))
                           (JSON_stringify h (normalizeForCompare h b opts)) = 0 \<Longrightarrow>
           normalizeForCompare h a opts = normalizeForCompare h b opts"
  shows "normalizeForCompare h (JArray xs) opts = normalizeForCompare h (JArray ys) opts"
proof -
  let ?cmp = "\<lambda>a b. localeCompare h (JSON_stringify h a) (JSON_stringify h b)"
  let ?n = "\<lambda>x. normalizeForCompare h x opts"
  have c: "consistent ?cmp"
    using assms(1) by (rule consistent_pullback)
  have "sort_by ?cmp (map ?n xs) = sort_by ?cmp (map ?n ys)"
  proof (rule sort_by_permutation [OF c])
    show "mset (map ?n xs) = mset (map ?n ys)"
      using assms(3) by (metis mset_map)
    show "a = b" if "a \<in> set (map ?n xs)" "b \<in> set (map ?n xs)" "?cmp a b = 0" for a b
      using that assms(4) by auto
  qed
  then show ?thesis
    using assms(2) by (simp add: normalizeForCompare_def [abs_def] Let_def)
qed

end
